theory Spec2Isabelle
  imports Complex_Main
begin

section \<open>Lyric alignment and subtitle serialisation (src/utils/alignment.ts)\<close>

text \<open>
  Modelling conventions.
  \<^item> A JavaScript string is a \<open>string\<close>; a \<open>char\<close> stands for the code point of the same
    number, so the strings covered are those over U+0000..U+00FF (Basic Latin and
    Latin-1 Supplement). On this range a UTF-16 code unit is a code point, and the
    Unicode tables used by \<open>toLowerCase\<close>, \<open>trim\<close>, \<open>\s\<close>, \<open>\p{L}\<close> and \<open>\p{N}\<close>
    are written out below.
  \<^item> A JavaScript number that holds a time is a \<open>real\<close>: arithmetic is exact, and
    NaN and the infinities are not values.
  \<^item> Reading an array out of range gives \<open>undefined\<close> (\<open>None\<close>); reading or writing a
    property of \<open>undefined\<close> throws a TypeError, which is the value \<open>Inl TypeError\<close>.
  \<^item> \<open>matchIndex\<close> is a \<open>nat option\<close>: \<open>None\<close> is the source's \<open>-1\<close>.
  \<^item> The field \<open>end\<close> of a word is called \<open>end_s\<close> here, \<open>end\<close> being a keyword.
\<close>

subsection \<open>Data model (types.ts)\<close>

record SunoWord =
  word :: string
  start :: real
  end_s :: real
  score :: "real option"

record AlignedLine =
  "text" :: string
  startTime :: real
  endTime :: real
  "words" :: "SunoWord list"

datatype error = TypeError

definition arrayGet :: "'a list \<Rightarrow> nat \<Rightarrow> 'a option" where
  "arrayGet xs i = (if i < length xs then Some (xs ! i) else None)"

definition getProp :: "('a \<Rightarrow> 'b) \<Rightarrow> 'a option \<Rightarrow> error + 'b" where
  "getProp f v = (case v of None \<Rightarrow> Inl TypeError | Some x \<Rightarrow> Inr (f x))"

subsection \<open>String primitives of the runtime, on U+0000..U+00FF\<close>

definition isLetter :: "char \<Rightarrow> bool" where
  "isLetter c =
     (let n = (of_char c :: nat)
      in (65 \<le> n \<and> n \<le> 90) \<or> (97 \<le> n \<and> n \<le> 122) \<or> n = 170 \<or> n = 181 \<or> n = 186
         \<or> (192 \<le> n \<and> n \<le> 214) \<or> (216 \<le> n \<and> n \<le> 246) \<or> (248 \<le> n \<and> n \<le> 255))"

definition isNumber :: "char \<Rightarrow> bool" where
  "isNumber c =
     (let n = (of_char c :: nat)
      in (48 \<le> n \<and> n \<le> 57) \<or> n = 178 \<or> n = 179 \<or> n = 185 \<or> (188 \<le> n \<and> n \<le> 190))"

definition isWhiteSpace :: "char \<Rightarrow> bool" where
  "isWhiteSpace c =
     (let n = (of_char c :: nat) in (9 \<le> n \<and> n \<le> 13) \<or> n = 32 \<or> n = 160)"

definition toLowerChar :: "char \<Rightarrow> char" where
  "toLowerChar c =
     (let n = (of_char c :: nat)
      in if (65 \<le> n \<and> n \<le> 90) \<or> (192 \<le> n \<and> n \<le> 214) \<or> (216 \<le> n \<and> n \<le> 222)
         then char_of (n + 32) else c)"

definition toLowerCase :: "string \<Rightarrow> string" where
  "toLowerCase s = map toLowerChar s"

text \<open>\<open>s.replace(/[C]/gu, r)\<close> for a character class \<open>C\<close>: every match is one character.\<close>

fun replaceAll :: "(char \<Rightarrow> bool) \<Rightarrow> string \<Rightarrow> string \<Rightarrow> string" where
  "replaceAll cls r [] = []"
| "replaceAll cls r (c # cs) =
     (if cls c then r @ replaceAll cls r cs else c # replaceAll cls r cs)"

definition trim :: "string \<Rightarrow> string" where
  "trim s = rev (dropWhile isWhiteSpace (rev (dropWhile isWhiteSpace s)))"

definition startsWith :: "string \<Rightarrow> string \<Rightarrow> bool" where
  "startsWith s p = (take (length p) s = p)"

definition endsWith :: "string \<Rightarrow> string \<Rightarrow> bool" where
  "endsWith s p = (length p \<le> length s \<and> drop (length s - length p) s = p)"

text \<open>\<open>s.split(sep)\<close> for a one-character separator.\<close>

fun splitChar :: "char \<Rightarrow> string \<Rightarrow> string list" where
  "splitChar sep [] = [[]]"
| "splitChar sep (c # cs) =
     (if c = sep then [] # splitChar sep cs
      else (case splitChar sep cs of [] \<Rightarrow> [[c]] | t # ts \<Rightarrow> (c # t) # ts))"

text \<open>
  \<open>s.split(/\s+/)\<close>: \<open>cur\<close> is the piece being read, reversed; a maximal run of white
  space ends it.
\<close>

function splitWsFrom :: "string \<Rightarrow> string \<Rightarrow> string list" where
  "splitWsFrom cur [] = [rev cur]"
| "splitWsFrom cur (c # cs) =
     (if isWhiteSpace c then rev cur # splitWsFrom [] (dropWhile isWhiteSpace cs)
      else splitWsFrom (c # cur) cs)"
  by pat_completeness auto
termination
  by (relation "measure (\<lambda>(cur, s). length s)") (auto simp: less_Suc_eq_le length_dropWhile_le)

definition splitWs :: "string \<Rightarrow> string list" where
  "splitWs s = splitWsFrom [] s"



subsection \<open>Number primitives of the runtime\<close>

definition digitChar :: "nat \<Rightarrow> char" where
  "digitChar d = char_of (48 + d)"

fun natToString :: "nat \<Rightarrow> string" where
  "natToString n = (if n < 10 then [digitChar n] else natToString (n div 10) @ [digitChar (n mod 10)])"




subsection \<open>normalize, formatLrcTime, formatSrtTime\<close>

definition normalize :: "string \<Rightarrow> string" where
  "normalize txt = replaceAll (\<lambda>c. \<not> (isLetter c \<or> isNumber c)) [] (toLowerCase txt)"



subsection \<open>alignLyrics\<close>

text \<open>The first inner loop (lines 56-79), entered with \<open>w = wordCursor\<close>.\<close>

function primarySearch :: "string list \<Rightarrow> SunoWord list \<Rightarrow> nat \<Rightarrow> error + nat option" where
  "primarySearch lineTokens alignedWords w =
     (if w < length alignedWords then
        (case getProp word (arrayGet alignedWords w) of
           Inl e \<Rightarrow> Inl e
         | Inr ww \<Rightarrow>
             (let audioWord = normalize ww
              in if Some audioWord = arrayGet lineTokens 0 then
                   (if length lineTokens > 1 \<and> w + 1 < length alignedWords then
                      (case getProp word (arrayGet alignedWords (w + 1)) of
                         Inl e \<Rightarrow> Inl e
                       | Inr nw \<Rightarrow>
                           (let nextAudioWord = normalize nw
                            in if Some nextAudioWord = arrayGet lineTokens 1
                               then Inr (Some w)
                               else Inr (Some w)))
                    else Inr (Some w))
                 else primarySearch lineTokens alignedWords (w + 1)))
      else Inr None)"
  by pat_completeness auto
termination
  by (relation "measure (\<lambda>(lineTokens, alignedWords, w). length alignedWords - w)") auto

text \<open>The second inner loop (lines 84-89), entered with \<open>w = wordCursor\<close>.\<close>

function fallbackSearch :: "string list \<Rightarrow> SunoWord list \<Rightarrow> nat \<Rightarrow> error + nat option" where
  "fallbackSearch lineTokens alignedWords w =
     (if w < length alignedWords then
        (case getProp word (arrayGet alignedWords w) of
           Inl e \<Rightarrow> Inl e
         | Inr ww \<Rightarrow>
             if Some (normalize ww) = arrayGet lineTokens 1 then Inr (Some w)
             else fallbackSearch lineTokens alignedWords (w + 1))
      else Inr None)"
  by pat_completeness auto
termination
  by (relation "measure (\<lambda>(lineTokens, alignedWords, w). length alignedWords - w)") auto

text \<open>The two searches of one line (lines 52-90): the value of \<open>matchIndex\<close> at line 92.\<close>

definition findMatch :: "string list \<Rightarrow> SunoWord list \<Rightarrow> nat \<Rightarrow> error + nat option" where
  "findMatch lineTokens alignedWords wordCursor =
     (case primarySearch lineTokens alignedWords wordCursor of
        Inl e \<Rightarrow> Inl e
      | Inr matchIndex \<Rightarrow>
          if matchIndex = None \<and> length lineTokens > 1
          then fallbackSearch lineTokens alignedWords wordCursor
          else Inr matchIndex)"

record AlignState =
  lines :: "AlignedLine list"
  wordCursor :: nat

definition tokenize :: "string \<Rightarrow> string list" where
  "tokenize lineText = filter (\<lambda>t. length t > 0) (map normalize (splitWs lineText))"

text \<open>One iteration of the outer loop (lines 41-106).\<close>

definition alignLine :: "SunoWord list \<Rightarrow> string \<Rightarrow> AlignState \<Rightarrow> error + AlignState" where
  "alignLine alignedWords lineText st =
     (if startsWith lineText ''['' \<and> endsWith lineText '']'' then Inr st
      else
        (let lineTokens = tokenize lineText
         in if length lineTokens = 0 then Inr st
            else
              (case findMatch lineTokens alignedWords (wordCursor st) of
                 Inl e \<Rightarrow> Inl e
               | Inr None \<Rightarrow> Inr st
               | Inr (Some matchIndex) \<Rightarrow>
                   (case getProp start (arrayGet alignedWords matchIndex) of
                      Inl e \<Rightarrow> Inl e
                    | Inr startTime' \<Rightarrow>
                        Inr \<lparr> lines = lines st @
                                 [\<lparr> text = lineText, startTime = startTime', endTime = 0, words = [] \<rparr>],
                              wordCursor = matchIndex + 1 \<rparr>))))"

fun alignLoop :: "SunoWord list \<Rightarrow> string list \<Rightarrow> AlignState \<Rightarrow> error + AlignState" where
  "alignLoop alignedWords [] st = Inr st"
| "alignLoop alignedWords (lineText # rest) st =
     (case alignLine alignedWords lineText st of
        Inl e \<Rightarrow> Inl e
      | Inr st' \<Rightarrow> alignLoop alignedWords rest st')"

text \<open>
  The post-processing loop (lines 111-126), entered with \<open>i = 0\<close>. For the empty word
  list the source reads index \<open>-1\<close>, which is \<open>undefined\<close>; here the index is \<open>0 - 1 = 0\<close>
  on \<open>nat\<close>, which is out of range of the empty list as well.
\<close>

function postProcess :: "SunoWord list \<Rightarrow> nat \<Rightarrow> AlignedLine list \<Rightarrow> error + AlignedLine list" where
  "postProcess alignedWords i ls =
     (if i < length ls then
        (case arrayGet ls i of
           None \<Rightarrow> Inl TypeError
         | Some currentLine \<Rightarrow>
             (case arrayGet ls (i + 1) of
                Some nextLine \<Rightarrow>
                  postProcess alignedWords (i + 1) (ls[i := currentLine\<lparr>endTime := startTime nextLine\<rparr>])
              | None \<Rightarrow>
                  (case arrayGet alignedWords (length alignedWords - 1) of
                     Some lastWord \<Rightarrow>
                       if end_s lastWord > startTime currentLine
                       then postProcess alignedWords (i + 1) (ls[i := currentLine\<lparr>endTime := end_s lastWord\<rparr>])
                       else postProcess alignedWords (i + 1)
                              (ls[i := currentLine\<lparr>endTime := startTime currentLine + 5\<rparr>])
                   | None \<Rightarrow>
                       postProcess alignedWords (i + 1)
                         (ls[i := currentLine\<lparr>endTime := startTime currentLine + 5\<rparr>]))))
      else Inr ls)"
  by pat_completeness auto
termination
  by (relation "measure (\<lambda>(alignedWords, i, ls). length ls - i)") auto

definition rawLines :: "string \<Rightarrow> string list" where
  "rawLines promptText =
     filter (\<lambda>l. length l > 0) (map trim (splitChar CHR 0x0A promptText))"

definition alignLyrics :: "string \<Rightarrow> SunoWord list \<Rightarrow> error + AlignedLine list" where
  "alignLyrics promptText alignedWords =
     (case alignLoop alignedWords (rawLines promptText) \<lparr> lines = [], wordCursor = 0 \<rparr> of
        Inl e \<Rightarrow> Inl e
      | Inr st \<Rightarrow> postProcess alignedWords 0 (lines st))"

subsection \<open>generateLRC, generateSRT\<close>



subsection \<open>Specification-side notions\<close>

text \<open>
  \<open>isFirstMatch tok ws cursor w\<close>: \<open>w\<close> is the first index at or after \<open>cursor\<close> whose word
  normalizes to \<open>tok\<close>; \<open>noMatch tok ws cursor\<close>: there is no such index.
  \<open>resolvedEnd ws ls k\<close> is the end time that the specification gives line \<open>k\<close> of \<open>ls\<close>;
  \<open>anchoredAt ws w line\<close>: \<open>line\<close> starts at the start time of word \<open>w\<close>.
\<close>

definition isFirstMatch :: "string \<Rightarrow> SunoWord list \<Rightarrow> nat \<Rightarrow> nat \<Rightarrow> bool" where
  "isFirstMatch tok alignedWords cursor w =
     (cursor \<le> w \<and> w < length alignedWords \<and> normalize (word (alignedWords ! w)) = tok
      \<and> (\<forall>j\<in>{cursor..<w}. normalize (word (alignedWords ! j)) \<noteq> tok))"

definition noMatch :: "string \<Rightarrow> SunoWord list \<Rightarrow> nat \<Rightarrow> bool" where
  "noMatch tok alignedWords cursor =
     (\<forall>j\<in>{cursor..<length alignedWords}. normalize (word (alignedWords ! j)) \<noteq> tok)"

definition resolvedEnd :: "SunoWord list \<Rightarrow> AlignedLine list \<Rightarrow> nat \<Rightarrow> real" where
  "resolvedEnd alignedWords ls k =
     (if k + 1 < length ls then startTime (ls ! (k + 1))
      else if alignedWords \<noteq> [] \<and> end_s (last alignedWords) > startTime (ls ! k)
           then end_s (last alignedWords)
           else startTime (ls ! k) + 5)"

definition anchoredAt :: "SunoWord list \<Rightarrow> nat \<Rightarrow> AlignedLine \<Rightarrow> bool" where
  "anchoredAt alignedWords w line = (w < length alignedWords \<and> startTime line = start (alignedWords ! w))"







text \<open>A word without a score, for writing concrete word lists.\<close>

definition sunoWord :: "string \<Rightarrow> real \<Rightarrow> real \<Rightarrow> SunoWord" where
  "sunoWord w s e = \<lparr> word = w, start = s, end_s = e, score = None \<rparr>"

section \<open>Auxiliary lemmas\<close>

declare primarySearch.simps [simp del] fallbackSearch.simps [simp del] postProcess.simps [simp del]
  natToString.simps [simp del]

lemma getProp_arrayGet: "i < length xs \<Longrightarrow> getProp f (arrayGet xs i) = Inr (f (xs ! i))"
  by (simp add: getProp_def arrayGet_def)

lemma scan_result:
  assumes rec: "\<And>w::nat. f w = (if w < (n::nat) then (if P w then Inr (Some w) else f (w + 1)) else Inr None)"
  shows "\<exists>r. f c = Inr r \<and>
           (case r of Some m \<Rightarrow> c \<le> m \<and> m < n \<and> P m \<and> (\<forall>j\<in>{c..<m}. \<not> P j)
                    | None \<Rightarrow> \<forall>j\<in>{c..<n}. \<not> P j)"
proof (induction "n - c" arbitrary: c)
  case 0
  then have "f c = Inr None" using rec [of c] by simp
  with 0 show ?case by simp
next
  case (Suc k)
  then have lt: "c < n" by simp
  show ?case
  proof (cases "P c")
    case True
    then have "f c = Inr (Some c)" using rec [of c] lt by simp
    with True lt show ?thesis by simp
  next
    case False
    then have eq: "f c = f (c + 1)" using rec [of c] lt by simp
    from Suc have "k = n - (c + 1)" by simp
    from Suc.hyps(1) [OF this] obtain r where r: "f (c + 1) = Inr r"
      and pr: "case r of Some m \<Rightarrow> c + 1 \<le> m \<and> m < n \<and> P m \<and> (\<forall>j\<in>{c + 1..<m}. \<not> P j)
                    | None \<Rightarrow> \<forall>j\<in>{c + 1..<n}. \<not> P j"
      by blast
    have "case r of Some m \<Rightarrow> c \<le> m \<and> m < n \<and> P m \<and> (\<forall>j\<in>{c..<m}. \<not> P j)
                    | None \<Rightarrow> \<forall>j\<in>{c..<n}. \<not> P j"
    proof (cases r)
      case None
      with pr have "\<forall>j\<in>{c + 1..<n}. \<not> P j" by simp
      then have "\<forall>j\<in>{c..<n}. \<not> P j" using False
        by (metis Suc_eq_plus1 Suc_leI atLeastLessThan_iff le_neq_implies_less)
      with None show ?thesis by simp
    next
      case (Some m)
      with pr have a: "c + 1 \<le> m" "m < n" "P m" "\<forall>j\<in>{c + 1..<m}. \<not> P j" by simp_all
      from a(4) have "\<forall>j\<in>{c..<m}. \<not> P j" using False
        by (metis Suc_eq_plus1 Suc_leI atLeastLessThan_iff le_neq_implies_less)
      with Some a show ?thesis by simp
    qed
    with eq r show ?thesis by simp
  qed
qed

lemma primarySearch_rec:
  "primarySearch toks ws w =
     (if w < length ws
      then (if Some (normalize (word (ws ! w))) = arrayGet toks 0 then Inr (Some w)
            else primarySearch toks ws (w + 1))
      else Inr None)"
  by (subst primarySearch.simps) (simp add: getProp_arrayGet Let_def)

lemma fallbackSearch_rec:
  "fallbackSearch toks ws w =
     (if w < length ws
      then (if Some (normalize (word (ws ! w))) = arrayGet toks 1 then Inr (Some w)
            else fallbackSearch toks ws (w + 1))
      else Inr None)"
  by (subst fallbackSearch.simps) (simp add: getProp_arrayGet)

lemma primarySearch_result:
  assumes "toks \<noteq> []"
  shows "\<exists>r. primarySearch toks ws c = Inr r \<and>
           (case r of Some m \<Rightarrow> isFirstMatch (toks ! 0) ws c m | None \<Rightarrow> noMatch (toks ! 0) ws c)"
proof -
  from assms have g: "arrayGet toks 0 = Some (toks ! 0)" by (simp add: arrayGet_def)
  have "\<And>w. primarySearch toks ws w =
     (if w < length ws
      then (if normalize (word (ws ! w)) = toks ! 0 then Inr (Some w)
            else primarySearch toks ws (w + 1))
      else Inr None)"
    by (subst primarySearch_rec) (simp add: g)
  from scan_result [of "primarySearch toks ws" "length ws" "\<lambda>w. normalize (word (ws ! w)) = toks ! 0", OF this, of c]
  show ?thesis by (auto simp: isFirstMatch_def noMatch_def split: option.splits)
qed

lemma fallbackSearch_result:
  assumes "1 < length toks"
  shows "\<exists>r. fallbackSearch toks ws c = Inr r \<and>
           (case r of Some m \<Rightarrow> isFirstMatch (toks ! 1) ws c m | None \<Rightarrow> noMatch (toks ! 1) ws c)"
proof -
  from assms have g: "arrayGet toks 1 = Some (toks ! 1)" by (simp add: arrayGet_def)
  have "\<And>w. fallbackSearch toks ws w =
     (if w < length ws
      then (if normalize (word (ws ! w)) = toks ! 1 then Inr (Some w)
            else fallbackSearch toks ws (w + 1))
      else Inr None)"
    by (subst fallbackSearch_rec) (use assms in \<open>simp add: arrayGet_def\<close>)
  from scan_result [of "fallbackSearch toks ws" "length ws" "\<lambda>w. normalize (word (ws ! w)) = toks ! 1", OF this, of c]
  show ?thesis by (auto simp: isFirstMatch_def noMatch_def split: option.splits)
qed

lemma arrayGet_last: "arrayGet xs (length xs - Suc 0) = (if xs = [] then None else Some (last xs))"
  by (simp add: arrayGet_def last_conv_nth)

lemma findMatch_result:
  assumes "toks \<noteq> []"
  shows "\<exists>r. findMatch toks ws c = Inr r \<and> (\<forall>m. r = Some m \<longrightarrow> c \<le> m \<and> m < length ws)"
proof -
  from primarySearch_result [OF assms, of ws c] obtain p where
    p: "primarySearch toks ws c = Inr p"
    and pp: "case p of Some m \<Rightarrow> isFirstMatch (toks ! 0) ws c m | None \<Rightarrow> noMatch (toks ! 0) ws c"
    by blast
  show ?thesis
  proof (cases "p = None \<and> 1 < length toks")
    case True
    from fallbackSearch_result [of toks ws c] True obtain r where
      r: "fallbackSearch toks ws c = Inr r"
      and rr: "case r of Some m \<Rightarrow> isFirstMatch (toks ! 1) ws c m | None \<Rightarrow> noMatch (toks ! 1) ws c"
      by blast
    from True p r have "findMatch toks ws c = Inr r" by (simp add: findMatch_def)
    with rr show ?thesis by (auto simp: isFirstMatch_def)
  next
    case False
    with p have "findMatch toks ws c = Inr p" by (auto simp: findMatch_def)
    with pp show ?thesis by (auto simp: isFirstMatch_def)
  qed
qed

lemma alignLine_result:
  "\<exists>st'. alignLine ws l st = Inr st' \<and>
     (st' = st \<or>
      (\<exists>m. wordCursor st \<le> m \<and> m < length ws \<and>
           st' = \<lparr> lines = lines st @ [\<lparr> text = l, startTime = start (ws ! m), endTime = 0, words = [] \<rparr>],
                   wordCursor = m + 1 \<rparr>))"
proof (cases "(startsWith l ''['' \<and> endsWith l '']'') \<or> tokenize l = []")
  case True
  then have "alignLine ws l st = Inr st" by (auto simp: alignLine_def)
  then show ?thesis by simp
next
  case False
  then have ne: "tokenize l \<noteq> []" and nb: "\<not> (startsWith l ''['' \<and> endsWith l '']'')"
    by simp_all
  from findMatch_result [OF ne, of ws "wordCursor st"] obtain r where
    r: "findMatch (tokenize l) ws (wordCursor st) = Inr r"
    and rr: "\<forall>m. r = Some m \<longrightarrow> wordCursor st \<le> m \<and> m < length ws"
    by blast
  show ?thesis
  proof (cases r)
    case None
    with r ne nb have "alignLine ws l st = Inr st" by (auto simp: alignLine_def)
    then show ?thesis by simp
  next
    case (Some m)
    with rr have m: "wordCursor st \<le> m" "m < length ws" by simp_all
    with r Some ne nb have "alignLine ws l st =
        Inr \<lparr> lines = lines st @ [\<lparr> text = l, startTime = start (ws ! m), endTime = 0, words = [] \<rparr>],
              wordCursor = m + 1 \<rparr>"
      by (auto simp: alignLine_def getProp_arrayGet)
    with m show ?thesis by blast
  qed
qed

lemma alignLine_anchor:
  assumes "\<not> (startsWith l ''['' \<and> endsWith l '']'')" and "tokenize l \<noteq> []"
    and "findMatch (tokenize l) ws (wordCursor st) = Inr (Some w)" and "w < length ws"
  shows "alignLine ws l st =
           Inr \<lparr> lines = lines st @ [\<lparr> text = l, startTime = start (ws ! w), endTime = 0, words = [] \<rparr>],
                 wordCursor = w + 1 \<rparr>"
  using assms by (auto simp: alignLine_def getProp_arrayGet)

lemma alignLoop_invariant:
  assumes "list_all2 (anchoredAt ws) idxs (lines st)"
    and "sorted_wrt (<) idxs"
    and "\<forall>i\<in>set idxs. i < wordCursor st"
  shows "\<exists>st' idxs'. alignLoop ws rs st = Inr st' \<and> list_all2 (anchoredAt ws) idxs' (lines st')
           \<and> sorted_wrt (<) idxs' \<and> (\<forall>i\<in>set idxs'. i < wordCursor st')
           \<and> (\<forall>line\<in>set (lines st'). endTime line = 0 \<or> line \<in> set (lines st))"
  using assms
proof (induction rs arbitrary: st idxs)
  case Nil
  then show ?case by auto
next
  case (Cons l rs)
  from alignLine_result [of ws l st] obtain st1 where
    s1: "alignLine ws l st = Inr st1"
    and c1: "st1 = st \<or>
      (\<exists>m. wordCursor st \<le> m \<and> m < length ws \<and>
           st1 = \<lparr> lines = lines st @ [\<lparr> text = l, startTime = start (ws ! m), endTime = 0, words = [] \<rparr>],
                   wordCursor = m + 1 \<rparr>)"
    by blast
  from c1 have "\<exists>idxs1. list_all2 (anchoredAt ws) idxs1 (lines st1) \<and> sorted_wrt (<) idxs1
        \<and> (\<forall>i\<in>set idxs1. i < wordCursor st1)"
  proof
    assume "st1 = st"
    with Cons.prems show ?thesis by blast
  next
    assume "\<exists>m. wordCursor st \<le> m \<and> m < length ws \<and>
           st1 = \<lparr> lines = lines st @ [\<lparr> text = l, startTime = start (ws ! m), endTime = 0, words = [] \<rparr>],
                   wordCursor = m + 1 \<rparr>"
    then obtain m where m: "wordCursor st \<le> m" "m < length ws"
      and st1: "st1 = \<lparr> lines = lines st @ [\<lparr> text = l, startTime = start (ws ! m), endTime = 0, words = [] \<rparr>],
                   wordCursor = m + 1 \<rparr>"
      by blast
    have "list_all2 (anchoredAt ws) [m]
            [\<lparr> text = l, startTime = start (ws ! m), endTime = 0, words = [] \<rparr>]"
      using m by (simp add: anchoredAt_def)
    from list_all2_appendI [OF Cons.prems(1) this]
    have a: "list_all2 (anchoredAt ws) (idxs @ [m]) (lines st1)"
      by (simp add: st1)
    have b: "sorted_wrt (<) (idxs @ [m])"
      using Cons.prems(2,3) m by (auto simp: sorted_wrt_append)
    have c: "\<forall>i\<in>set (idxs @ [m]). i < wordCursor st1"
      using Cons.prems(3) m st1 by auto
    from a b c show ?thesis by blast
  qed
  then obtain idxs1 where i1: "list_all2 (anchoredAt ws) idxs1 (lines st1)" "sorted_wrt (<) idxs1"
        "\<forall>i\<in>set idxs1. i < wordCursor st1"
    by blast
  from Cons.IH [OF i1] obtain st' idxs' where
    r: "alignLoop ws rs st1 = Inr st'" "list_all2 (anchoredAt ws) idxs' (lines st')"
       "sorted_wrt (<) idxs'" "\<forall>i\<in>set idxs'. i < wordCursor st'"
       "\<forall>line\<in>set (lines st'). endTime line = 0 \<or> line \<in> set (lines st1)"
    by blast
  from c1 have "\<forall>line\<in>set (lines st1). endTime line = 0 \<or> line \<in> set (lines st)"
    by auto
  with r(5) have "\<forall>line\<in>set (lines st'). endTime line = 0 \<or> line \<in> set (lines st)"
    by blast
  with r s1 show ?case by auto
qed

lemma postProcess_rec:
  assumes "i < length ls"
  shows "postProcess ws i ls =
           postProcess ws (i + 1) (ls[i := (ls ! i)\<lparr>endTime := resolvedEnd ws ls i\<rparr>])"
proof (cases "i + 1 < length ls")
  case True
  with assms show ?thesis
    by (subst postProcess.simps) (simp add: arrayGet_def resolvedEnd_def)
next
  case False
  with assms have "arrayGet ls (i + 1) = None" "arrayGet ls i = Some (ls ! i)"
    by (simp_all add: arrayGet_def)
  with assms False show ?thesis
    by (subst postProcess.simps) (simp add: arrayGet_last resolvedEnd_def)
qed

lemma postProcess_result:
  "\<exists>ls'. postProcess ws i ls = Inr ls' \<and> length ls' = length ls \<and>
     (\<forall>k<length ls.
        text (ls' ! k) = text (ls ! k) \<and> startTime (ls' ! k) = startTime (ls ! k)
        \<and> words (ls' ! k) = words (ls ! k)
        \<and> endTime (ls' ! k) = (if k < i then endTime (ls ! k) else resolvedEnd ws ls k))"
proof (induction "length ls - i" arbitrary: i ls)
  case 0
  then have "postProcess ws i ls = Inr ls" by (subst postProcess.simps) simp
  with 0 show ?case by simp
next
  case (Suc n)
  then have lt: "i < length ls" by simp
  define ls1 where "ls1 = ls[i := (ls ! i)\<lparr>endTime := resolvedEnd ws ls i\<rparr>]"
  have len: "length ls1 = length ls" by (simp add: ls1_def)
  have st: "startTime (ls1 ! k) = startTime (ls ! k)" if "k < length ls" for k
    using that by (cases "k = i") (simp_all add: ls1_def)
  have re: "\<And>k. k < length ls \<Longrightarrow> resolvedEnd ws ls1 k = resolvedEnd ws ls k"
    by (simp add: resolvedEnd_def len st)
  from Suc have "n = length ls1 - (i + 1)" by (simp add: len)
  from Suc.hyps(1) [OF this] obtain ls' where
    r: "postProcess ws (i + 1) ls1 = Inr ls'" "length ls' = length ls1"
    and q: "\<forall>k<length ls1.
        text (ls' ! k) = text (ls1 ! k) \<and> startTime (ls' ! k) = startTime (ls1 ! k)
        \<and> words (ls' ! k) = words (ls1 ! k)
        \<and> endTime (ls' ! k) = (if k < i + 1 then endTime (ls1 ! k) else resolvedEnd ws ls1 k)"
    by blast
  have "postProcess ws i ls = Inr ls'"
    using postProcess_rec [OF lt, of ws] r(1) by (simp add: ls1_def)
  moreover have "\<forall>k<length ls.
        text (ls' ! k) = text (ls ! k) \<and> startTime (ls' ! k) = startTime (ls ! k)
        \<and> words (ls' ! k) = words (ls ! k)
        \<and> endTime (ls' ! k) = (if k < i then endTime (ls ! k) else resolvedEnd ws ls k)"
  proof (intro allI impI)
    fix k assume k: "k < length ls"
    with q len have qk: "text (ls' ! k) = text (ls1 ! k)" "startTime (ls' ! k) = startTime (ls1 ! k)"
        "words (ls' ! k) = words (ls1 ! k)"
        "endTime (ls' ! k) = (if k < i + 1 then endTime (ls1 ! k) else resolvedEnd ws ls1 k)"
      by simp_all
    show "text (ls' ! k) = text (ls ! k) \<and> startTime (ls' ! k) = startTime (ls ! k)
        \<and> words (ls' ! k) = words (ls ! k)
        \<and> endTime (ls' ! k) = (if k < i then endTime (ls ! k) else resolvedEnd ws ls k)"
      using qk k re [OF k] by (cases "k = i") (auto simp: ls1_def nth_list_update)
  qed
  ultimately show ?case using r(2) len by simp
qed

lemma resolvedEnd_cong:
  assumes "length ls' = length ls" and "\<forall>k<length ls. startTime (ls' ! k) = startTime (ls ! k)"
    and "k < length ls"
  shows "resolvedEnd ws ls' k = resolvedEnd ws ls k"
  using assms by (simp add: resolvedEnd_def)

lemma alignLyrics_structure:
  "\<exists>ls idxs. alignLyrics t ws = Inr ls \<and> list_all2 (anchoredAt ws) idxs ls \<and> sorted_wrt (<) idxs
      \<and> (\<forall>k<length ls. endTime (ls ! k) = resolvedEnd ws ls k)"
proof -
  let ?st0 = "\<lparr> lines = [], wordCursor = 0 \<rparr>"
  have "list_all2 (anchoredAt ws) [] (lines ?st0)" "sorted_wrt (<) ([]::nat list)"
    "\<forall>i\<in>set ([]::nat list). i < wordCursor ?st0"
    by simp_all
  from alignLoop_invariant [OF this, of "rawLines t"] obtain st idxs where
    l: "alignLoop ws (rawLines t) ?st0 = Inr st"
    and a: "list_all2 (anchoredAt ws) idxs (lines st)" and s: "sorted_wrt (<) idxs"
    by blast
  from postProcess_result [of ws 0 "lines st"] obtain ls where
    p: "postProcess ws 0 (lines st) = Inr ls" and len: "length ls = length (lines st)"
    and q: "\<forall>k<length (lines st). text (ls ! k) = text (lines st ! k)
              \<and> startTime (ls ! k) = startTime (lines st ! k)
              \<and> words (ls ! k) = words (lines st ! k)
              \<and> endTime (ls ! k) = (if k < 0 then endTime (lines st ! k) else resolvedEnd ws (lines st) k)"
    by blast
  from l p have r: "alignLyrics t ws = Inr ls" by (simp add: alignLyrics_def)
  from q have sq: "\<forall>k<length (lines st). startTime (ls ! k) = startTime (lines st ! k)" by simp
  have e: "\<forall>k<length ls. endTime (ls ! k) = resolvedEnd ws ls k"
  proof (intro allI impI)
    fix k assume "k < length ls"
    then have k: "k < length (lines st)" by (simp add: len)
    with q have "endTime (ls ! k) = resolvedEnd ws (lines st) k" by simp
    also have "\<dots> = resolvedEnd ws ls k" using resolvedEnd_cong [OF len sq k] by simp
    finally show "endTime (ls ! k) = resolvedEnd ws ls k" .
  qed
  have "list_all2 (anchoredAt ws) idxs ls"
    using a sq len by (simp add: list_all2_conv_all_nth anchoredAt_def)
  with r s e show ?thesis by blast
qed

lemma strict_indices_bound:
  assumes "sorted_wrt (<) (idxs::nat list)" and "\<forall>i\<in>set idxs. i < n"
  shows "length idxs \<le> n"
proof -
  from assms(1) have "distinct idxs" by (simp add: strict_sorted_iff)
  then have "length idxs = card (set idxs)" by (simp add: distinct_card)
  also have "\<dots> \<le> card {..<n}" using assms(2) by (intro card_mono) auto
  finally show ?thesis by simp
qed

lemma isFirstMatch_unique:
  assumes "isFirstMatch t ws c m" and "isFirstMatch t ws c m'"
  shows "m = m'"
proof (rule ccontr)
  assume "m \<noteq> m'"
  then consider "m < m'" | "m' < m" by linarith
  then show False
  proof cases
    case 1
    with assms show False by (auto simp: isFirstMatch_def)
  next
    case 2
    with assms show False by (auto simp: isFirstMatch_def)
  qed
qed

lemma isFirstMatch_noMatch: "isFirstMatch t ws c m \<Longrightarrow> \<not> noMatch t ws c"
  by (auto simp: isFirstMatch_def noMatch_def)

lemma alignLyrics_anchors:
  "\<exists>ls idxs. alignLyrics promptText alignedWords = Inr ls \<and> length idxs = length ls
      \<and> (\<forall>k<length ls. idxs ! k < length alignedWords
             \<and> startTime (ls ! k) = start (alignedWords ! (idxs ! k)))
      \<and> sorted_wrt (<) idxs \<and> length ls \<le> length alignedWords"
proof -
  from alignLyrics_structure [of promptText alignedWords] obtain ls idxs where
    r: "alignLyrics promptText alignedWords = Inr ls"
    and a: "list_all2 (anchoredAt alignedWords) idxs ls" and s: "sorted_wrt (<) idxs"
    by blast
  from a have len: "length idxs = length ls"
    and an: "\<forall>k<length ls. idxs ! k < length alignedWords
                 \<and> startTime (ls ! k) = start (alignedWords ! (idxs ! k))"
    by (simp_all add: list_all2_conv_all_nth anchoredAt_def)
  from an len have "\<forall>i\<in>set idxs. i < length alignedWords" by (auto simp: in_set_conv_nth)
  from strict_indices_bound [OF s this] len have "length ls \<le> length alignedWords" by simp
  with r len an s show ?thesis by blast
qed



lemma splitChar_nonempty: "splitChar c s \<noteq> []"
  by (induction s) (auto split: list.splits)

lemma splitChar_append: "splitChar c (a @ c # b) = splitChar c a @ splitChar c b"
proof (induction a)
  case Nil
  then show ?case by simp
next
  case (Cons x a)
  then show ?case
    using splitChar_nonempty [of c a] by (cases "splitChar c a") auto
qed

lemma splitChar_no_separator: "c \<notin> set x \<Longrightarrow> splitChar c x = [x]"
  by (induction x) auto

lemma rawLines_append:
  "rawLines (a @ CHR 0x0A # b) = rawLines a @ rawLines b"
  by (simp add: rawLines_def splitChar_append)

lemma rawLines_single:
  "CHR 0x0A \<notin> set x \<Longrightarrow> rawLines x = (if trim x = [] then [] else [trim x])"
  by (simp add: rawLines_def splitChar_no_separator)

lemma alignLoop_append:
  "alignLoop ws (xs @ ys) st =
     (case alignLoop ws xs st of Inl e \<Rightarrow> Inl e | Inr st' \<Rightarrow> alignLoop ws ys st')"
  by (induction xs arbitrary: st) (auto split: sum.splits)

lemma alignLine_skip:
  "(startsWith l ''['' \<and> endsWith l '']'') \<or> tokenize l = [] \<Longrightarrow> alignLine ws l st = Inr st"
  by (auto simp: alignLine_def)

lemma alignLoop_skip_all:
  "\<forall>l\<in>set ls. (startsWith l ''['' \<and> endsWith l '']'') \<or> tokenize l = [] \<Longrightarrow>
     alignLoop ws ls st = Inr st"
  by (induction ls) (auto simp: alignLine_skip)

lemma postProcess_Nil: "postProcess ws 0 [] = Inr []"
  by (subst postProcess.simps) simp

lemma skipped_line_removed:
  assumes "CHR 0x0A \<notin> set x"
    and "trim x = [] \<or> (startsWith (trim x) ''['' \<and> endsWith (trim x) '']'') \<or> tokenize (trim x) = []"
  shows "alignLyrics (a @ [CHR 0x0A] @ x @ [CHR 0x0A] @ b) ws = alignLyrics (a @ [CHR 0x0A] @ b) ws"
proof -
  have r: "rawLines (a @ CHR 0x0A # x @ CHR 0x0A # b) = rawLines a @ rawLines x @ rawLines b"
    by (simp add: rawLines_append)
  have r': "rawLines (a @ CHR 0x0A # b) = rawLines a @ rawLines b"
    by (simp add: rawLines_append)
  have "alignLoop ws (rawLines x) st = Inr st" for st
    using assms by (auto simp: rawLines_single alignLine_skip)
  then have "alignLoop ws (rawLines a @ rawLines x @ rawLines b) st
             = alignLoop ws (rawLines a @ rawLines b) st" for st
    by (simp add: alignLoop_append split: sum.splits)
  then show ?thesis by (simp add: alignLyrics_def r r')
qed

lemma all_skipped_empty:
  assumes "\<forall>p\<in>set (splitChar (CHR 0x0A) t).
             trim p = [] \<or> (startsWith (trim p) ''['' \<and> endsWith (trim p) '']'')"
  shows "alignLyrics t ws = Inr []"
proof -
  from assms have "\<forall>l\<in>set (rawLines t). (startsWith l ''['' \<and> endsWith l '']'') \<or> tokenize l = []"
    by (auto simp: rawLines_def)
  from alignLoop_skip_all [OF this] show ?thesis
    by (simp add: alignLyrics_def postProcess_Nil)
qed

























section \<open>The claims\<close>

text \<open>
  C1. Primary search: for a line with at least one normalized token, the search returns
  the first index \<open>w \<ge> cursor\<close> whose normalized word equals the line's first token, or
  nothing when there is none. The result is the same as for the line cut down to its
  first token, so the comparison with the second token (matching, mismatching or absent)
  never rejects the match and never moves it to a later candidate; a match found
  here is the match index of the line, and the line is emitted with the start time of
  that word and the cursor moves just behind it.
\<close>

theorem primary_search_first_token_match:
  assumes "lineTokens \<noteq> []"
  shows "\<exists>r. primarySearch lineTokens alignedWords cursor = Inr r
           \<and> (case r of Some w \<Rightarrow> isFirstMatch (lineTokens ! 0) alignedWords cursor w
                       | None \<Rightarrow> noMatch (lineTokens ! 0) alignedWords cursor)
           \<and> primarySearch [lineTokens ! 0] alignedWords cursor = Inr r
           \<and> (r \<noteq> None \<longrightarrow> findMatch lineTokens alignedWords cursor = Inr r)
           \<and> (\<forall>w l st. r = Some w \<and> \<not> (startsWith l ''['' \<and> endsWith l '']'')
                  \<and> tokenize l = lineTokens \<and> wordCursor st = cursor \<longrightarrow>
                alignLine alignedWords l st =
                  Inr \<lparr> lines = lines st @
                          [\<lparr> text = l, startTime = start (alignedWords ! w), endTime = 0, words = [] \<rparr>],
                        wordCursor = w + 1 \<rparr>)"
proof -
  from primarySearch_result [OF assms, of alignedWords cursor] obtain r where
    r: "primarySearch lineTokens alignedWords cursor = Inr r"
    and c: "case r of Some w \<Rightarrow> isFirstMatch (lineTokens ! 0) alignedWords cursor w
                    | None \<Rightarrow> noMatch (lineTokens ! 0) alignedWords cursor"
    by blast
  have "[lineTokens ! 0] \<noteq> []" by simp
  from primarySearch_result [OF this, of alignedWords cursor, unfolded nth_Cons_0]
  obtain r' where
    r': "primarySearch [lineTokens ! 0] alignedWords cursor = Inr r'"
    and c': "case r' of Some w \<Rightarrow> isFirstMatch (lineTokens ! 0) alignedWords cursor w
                    | None \<Rightarrow> noMatch (lineTokens ! 0) alignedWords cursor"
    by blast
  from c c' have "r' = r"
    by (auto split: option.splits dest: isFirstMatch_unique isFirstMatch_noMatch)
  moreover from r have f: "r \<noteq> None \<longrightarrow> findMatch lineTokens alignedWords cursor = Inr r"
    by (simp add: findMatch_def)
  moreover have "\<forall>w l st. r = Some w \<and> \<not> (startsWith l ''['' \<and> endsWith l '']'')
                  \<and> tokenize l = lineTokens \<and> wordCursor st = cursor \<longrightarrow>
                alignLine alignedWords l st =
                  Inr \<lparr> lines = lines st @
                          [\<lparr> text = l, startTime = start (alignedWords ! w), endTime = 0, words = [] \<rparr>],
                        wordCursor = w + 1 \<rparr>"
  proof (intro allI impI)
    fix w l and st :: AlignState
    assume a: "r = Some w \<and> \<not> (startsWith l ''['' \<and> endsWith l '']'')
                  \<and> tokenize l = lineTokens \<and> wordCursor st = cursor"
    with c have "w < length alignedWords" by (simp add: isFirstMatch_def)
    moreover from a f have "findMatch (tokenize l) alignedWords (wordCursor st) = Inr (Some w)" by simp
    moreover from a assms have "tokenize l \<noteq> []" by simp
    ultimately show "alignLine alignedWords l st =
                  Inr \<lparr> lines = lines st @
                          [\<lparr> text = l, startTime = start (alignedWords ! w), endTime = 0, words = [] \<rparr>],
                        wordCursor = w + 1 \<rparr>"
      using a by (intro alignLine_anchor) simp_all
  qed
  ultimately show ?thesis using r c r' by blast
qed

theorem primary_search_first_token_match_witness:
  "primarySearch [''i'', ''love'']
     [sunoWord ''I'' 0 1, sunoWord ''am'' 1 2, sunoWord ''I'' 2 3, sunoWord ''love'' 3 4] 0 = Inr (Some 0)
   \<and> isFirstMatch ''i''
       [sunoWord ''I'' 0 1, sunoWord ''am'' 1 2, sunoWord ''I'' 2 3, sunoWord ''love'' 3 4] 0 0
   \<and> findMatch [''i'', ''love'']
       [sunoWord ''I'' 0 1, sunoWord ''am'' 1 2, sunoWord ''I'' 2 3, sunoWord ''love'' 3 4] 0 = Inr (Some 0)
   \<and> alignLine [sunoWord ''I'' 0 1, sunoWord ''am'' 1 2, sunoWord ''I'' 2 3, sunoWord ''love'' 3 4]
       ''I love'' \<lparr> lines = [], wordCursor = 0 \<rparr>
     = Inr \<lparr> lines = [\<lparr> text = ''I love'', startTime = 0, endTime = 0, words = [] \<rparr>],
             wordCursor = 1 \<rparr>"
proof -
  have e: "primarySearch [''i'', ''love'']
     [sunoWord ''I'' 0 1, sunoWord ''am'' 1 2, sunoWord ''I'' 2 3, sunoWord ''love'' 3 4] 0 = Inr (Some 0)"
    by code_simp
  have n: "[''i'', ''love''] \<noteq> []" by simp
  have t: "\<not> (startsWith ''I love'' ''['' \<and> endsWith ''I love'' '']'')
           \<and> tokenize ''I love'' = [''i'', ''love'']"
    by code_simp
  from primary_search_first_token_match [OF n,
      of "[sunoWord ''I'' 0 1, sunoWord ''am'' 1 2, sunoWord ''I'' 2 3, sunoWord ''love'' 3 4]" 0]
  obtain r where
    r: "primarySearch [''i'', ''love'']
          [sunoWord ''I'' 0 1, sunoWord ''am'' 1 2, sunoWord ''I'' 2 3, sunoWord ''love'' 3 4] 0 = Inr r"
    and c: "case r of Some w \<Rightarrow> isFirstMatch ([''i'', ''love''] ! 0)
                [sunoWord ''I'' 0 1, sunoWord ''am'' 1 2, sunoWord ''I'' 2 3, sunoWord ''love'' 3 4] 0 w
            | None \<Rightarrow> noMatch ([''i'', ''love''] ! 0)
                [sunoWord ''I'' 0 1, sunoWord ''am'' 1 2, sunoWord ''I'' 2 3, sunoWord ''love'' 3 4] 0"
    and f: "r \<noteq> None \<longrightarrow> findMatch [''i'', ''love'']
          [sunoWord ''I'' 0 1, sunoWord ''am'' 1 2, sunoWord ''I'' 2 3, sunoWord ''love'' 3 4] 0 = Inr r"
    and a: "\<forall>w l st. r = Some w \<and> \<not> (startsWith l ''['' \<and> endsWith l '']'')
                  \<and> tokenize l = [''i'', ''love''] \<and> wordCursor st = 0 \<longrightarrow>
                alignLine [sunoWord ''I'' 0 1, sunoWord ''am'' 1 2, sunoWord ''I'' 2 3, sunoWord ''love'' 3 4] l st =
                  Inr \<lparr> lines = lines st @
                          [\<lparr> text = l,
                             startTime = start ([sunoWord ''I'' 0 1, sunoWord ''am'' 1 2, sunoWord ''I'' 2 3,
                                                 sunoWord ''love'' 3 4] ! w),
                             endTime = 0, words = [] \<rparr>],
                        wordCursor = w + 1 \<rparr>"
    by blast
  from r e have r0: "r = Some 0" by simp
  from a [rule_format, of 0 "''I love''" "\<lparr> lines = [], wordCursor = 0 \<rparr>"] r0 t
  have "alignLine [sunoWord ''I'' 0 1, sunoWord ''am'' 1 2, sunoWord ''I'' 2 3, sunoWord ''love'' 3 4]
       ''I love'' \<lparr> lines = [], wordCursor = 0 \<rparr>
     = Inr \<lparr> lines = [\<lparr> text = ''I love'', startTime = 0, endTime = 0, words = [] \<rparr>],
             wordCursor = 1 \<rparr>"
    by (simp add: sunoWord_def)
  with r0 e c f show ?thesis by simp
qed

text \<open>
  C2. Fallback search: it runs exactly when the primary search found nothing and the line
  has more than one token; it starts again at the same cursor and returns the first index
  whose normalized word equals the line's second token. In every other case the match
  index is the primary search's result. For the text "Zzz unmatched word" and the words
  completely (0-1), unmatched (1-2), word (2-3) the single line starts at 1.
\<close>

theorem fallback_search_second_token:
  assumes "lineTokens \<noteq> []"
  shows "(\<exists>p r. primarySearch lineTokens alignedWords cursor = Inr p
            \<and> findMatch lineTokens alignedWords cursor = Inr r
            \<and> (if p = None \<and> length lineTokens > 1
               then fallbackSearch lineTokens alignedWords cursor = Inr r
                    \<and> (case r of Some w \<Rightarrow> isFirstMatch (lineTokens ! 1) alignedWords cursor w
                                | None \<Rightarrow> noMatch (lineTokens ! 1) alignedWords cursor)
               else r = p))
         \<and> alignLyrics ''Zzz unmatched word''
             [sunoWord ''completely'' 0 1, sunoWord ''unmatched'' 1 2, sunoWord ''word'' 2 3]
           = Inr [\<lparr> text = ''Zzz unmatched word'', startTime = 1, endTime = 3, words = [] \<rparr>]"
proof -
  from primarySearch_result [OF assms, of alignedWords cursor] obtain p where
    p: "primarySearch lineTokens alignedWords cursor = Inr p"
    by blast
  have "\<exists>r. findMatch lineTokens alignedWords cursor = Inr r
            \<and> (if p = None \<and> length lineTokens > 1
               then fallbackSearch lineTokens alignedWords cursor = Inr r
                    \<and> (case r of Some w \<Rightarrow> isFirstMatch (lineTokens ! 1) alignedWords cursor w
                                | None \<Rightarrow> noMatch (lineTokens ! 1) alignedWords cursor)
               else r = p)"
  proof (cases "p = None \<and> length lineTokens > 1")
    case True
    from fallbackSearch_result [of lineTokens alignedWords cursor] True obtain r where
      r: "fallbackSearch lineTokens alignedWords cursor = Inr r"
      and rr: "case r of Some w \<Rightarrow> isFirstMatch (lineTokens ! 1) alignedWords cursor w
                                | None \<Rightarrow> noMatch (lineTokens ! 1) alignedWords cursor"
      by blast
    from True p r have "findMatch lineTokens alignedWords cursor = Inr r"
      by (simp add: findMatch_def)
    with True r rr show ?thesis by simp
  next
    case False
    with p have "findMatch lineTokens alignedWords cursor = Inr p"
      by (auto simp: findMatch_def)
    with False show ?thesis by auto
  qed
  moreover have "alignLyrics ''Zzz unmatched word''
             [sunoWord ''completely'' 0 1, sunoWord ''unmatched'' 1 2, sunoWord ''word'' 2 3]
           = Inr [\<lparr> text = ''Zzz unmatched word'', startTime = 1, endTime = 3, words = [] \<rparr>]"
    by code_simp
  ultimately show ?thesis using p by blast
qed

theorem fallback_search_second_token_witness:
  "primarySearch [''zzz'', ''unmatched'', ''word'']
     [sunoWord ''completely'' 0 1, sunoWord ''unmatched'' 1 2, sunoWord ''word'' 2 3] 0 = Inr None
   \<and> findMatch [''zzz'', ''unmatched'', ''word'']
     [sunoWord ''completely'' 0 1, sunoWord ''unmatched'' 1 2, sunoWord ''word'' 2 3] 0 = Inr (Some 1)
   \<and> isFirstMatch ''unmatched''
     [sunoWord ''completely'' 0 1, sunoWord ''unmatched'' 1 2, sunoWord ''word'' 2 3] 0 1"
proof -
  have e: "primarySearch [''zzz'', ''unmatched'', ''word'']
     [sunoWord ''completely'' 0 1, sunoWord ''unmatched'' 1 2, sunoWord ''word'' 2 3] 0 = Inr None"
    "findMatch [''zzz'', ''unmatched'', ''word'']
     [sunoWord ''completely'' 0 1, sunoWord ''unmatched'' 1 2, sunoWord ''word'' 2 3] 0 = Inr (Some 1)"
    by code_simp+
  have n: "[''zzz'', ''unmatched'', ''word''] \<noteq> []" by simp
  from fallback_search_second_token [OF n,
      of "[sunoWord ''completely'' 0 1, sunoWord ''unmatched'' 1 2, sunoWord ''word'' 2 3]" 0] e
  show ?thesis by auto
qed

text \<open>
  C3. End times: in the returned sequence every line but the last ends where the next
  line starts; the last line ends at the last word's end time when the word list is not
  empty and that time is greater than the line's start, and five seconds after its start
  otherwise. For the text "Solo" and the word Solo (start 2, end 1) the end time is 7.
\<close>

theorem end_time_resolution:
  "(\<exists>ls. alignLyrics promptText alignedWords = Inr ls \<and>
      (\<forall>k<length ls.
         endTime (ls ! k) =
           (if k + 1 < length ls then startTime (ls ! (k + 1))
            else if alignedWords \<noteq> [] \<and> end_s (last alignedWords) > startTime (ls ! k)
                 then end_s (last alignedWords)
                 else startTime (ls ! k) + 5)))
   \<and> alignLyrics ''Solo'' [sunoWord ''Solo'' 2 1]
       = Inr [\<lparr> text = ''Solo'', startTime = 2, endTime = 7, words = [] \<rparr>]"
proof -
  have "alignLyrics ''Solo'' [sunoWord ''Solo'' 2 1]
       = Inr [\<lparr> text = ''Solo'', startTime = 2, endTime = 7, words = [] \<rparr>]"
    by code_simp
  then show ?thesis
    using alignLyrics_structure [of promptText alignedWords] by (auto simp: resolvedEnd_def)
qed

theorem end_time_resolution_witness:
  "\<exists>ls. alignLyrics (''Hello'' @ [CHR 0x0A] @ ''world'')
           [sunoWord ''Hello'' 0 0.5, sunoWord ''world'' 1 1.5] = Inr ls
      \<and> length ls = 2 \<and> endTime (ls ! 0) = startTime (ls ! 1) \<and> endTime (ls ! 1) = 1.5"
proof -
  have e: "alignLyrics (''Hello'' @ [CHR 0x0A] @ ''world'')
           [sunoWord ''Hello'' 0 0.5, sunoWord ''world'' 1 1.5]
         = Inr [\<lparr> text = ''Hello'', startTime = 0, endTime = 1, words = [] \<rparr>,
                \<lparr> text = ''world'', startTime = 1, endTime = 1.5, words = [] \<rparr>]"
    by code_simp
  from end_time_resolution [of "''Hello'' @ [CHR 0x0A] @ ''world''"
      "[sunoWord ''Hello'' 0 0.5, sunoWord ''world'' 1 1.5]"] e
  show ?thesis by (auto simp: sunoWord_def)
qed

text \<open>
  C4. When the start times of the word list are in non-decreasing order, every returned
  line has \<open>startTime \<le> endTime\<close>.
\<close>

theorem start_time_le_end_time:
  assumes "sorted (map start alignedWords)"
  shows "\<exists>ls. alignLyrics promptText alignedWords = Inr ls
           \<and> (\<forall>line\<in>set ls. startTime line \<le> endTime line)"
proof -
  from alignLyrics_structure [of promptText alignedWords] obtain ls idxs where
    r: "alignLyrics promptText alignedWords = Inr ls"
    and a: "list_all2 (anchoredAt alignedWords) idxs ls" and s: "sorted_wrt (<) idxs"
    and e: "\<forall>k<length ls. endTime (ls ! k) = resolvedEnd alignedWords ls k"
    by blast
  from a have len: "length idxs = length ls"
    and an: "\<And>k. k < length ls \<Longrightarrow> idxs ! k < length alignedWords
                 \<and> startTime (ls ! k) = start (alignedWords ! (idxs ! k))"
    by (simp_all add: list_all2_conv_all_nth anchoredAt_def)
  have "startTime (ls ! k) \<le> endTime (ls ! k)" if k: "k < length ls" for k
  proof (cases "k + 1 < length ls")
    case True
    from s True len have "idxs ! k < idxs ! (k + 1)" by (simp add: sorted_wrt_nth_less)
    moreover from an [OF True] have "idxs ! (k + 1) < length alignedWords" by simp
    ultimately have "start (alignedWords ! (idxs ! k)) \<le> start (alignedWords ! (idxs ! (k + 1)))"
      using assms sorted_nth_mono [of "map start alignedWords" "idxs ! k" "idxs ! (k + 1)"] by simp
    with an [OF k] an [OF True] e k True show ?thesis by (simp add: resolvedEnd_def)
  next
    case False
    with e k show ?thesis by (simp add: resolvedEnd_def)
  qed
  then have "\<forall>line\<in>set ls. startTime line \<le> endTime line" by (auto simp: in_set_conv_nth)
  with r show ?thesis by blast
qed

theorem start_time_le_end_time_witness:
  "sorted (map start [sunoWord ''Hello'' 0 0.5, sunoWord ''world'' 1 1.5])
   \<and> (\<exists>ls. alignLyrics (''Hello'' @ [CHR 0x0A] @ ''world'')
              [sunoWord ''Hello'' 0 0.5, sunoWord ''world'' 1 1.5] = Inr ls
         \<and> length ls = 2 \<and> (\<forall>line\<in>set ls. startTime line \<le> endTime line))"
proof -
  have h: "sorted (map start [sunoWord ''Hello'' 0 0.5, sunoWord ''world'' 1 1.5])"
    by (simp add: sunoWord_def)
  have e: "alignLyrics (''Hello'' @ [CHR 0x0A] @ ''world'')
           [sunoWord ''Hello'' 0 0.5, sunoWord ''world'' 1 1.5]
         = Inr [\<lparr> text = ''Hello'', startTime = 0, endTime = 1, words = [] \<rparr>,
                \<lparr> text = ''world'', startTime = 1, endTime = 1.5, words = [] \<rparr>]"
    by code_simp
  from start_time_le_end_time [OF h, of "''Hello'' @ [CHR 0x0A] @ ''world''"] e h
  show ?thesis by auto
qed

text \<open>
  C9. \<open>alignLyrics\<close> never throws: for every text and word list it returns a list (no
  property of \<open>undefined\<close> is read, so every array read that is dereferenced is in
  range), and every loop of it terminates. For the empty word list the result is the
  empty list.
\<close>

theorem alignLyrics_never_throws:
  "(\<exists>ls. alignLyrics promptText alignedWords = Inr ls) \<and> alignLyrics promptText [] = Inr []"
proof -
  from alignLyrics_anchors [of promptText "[]"] have "alignLyrics promptText [] = Inr []" by auto
  with alignLyrics_anchors [of promptText alignedWords] show ?thesis by blast
qed

text \<open>
  C10. Anchors: the returned lines start at the start times of words of the input list
  whose indices are strictly increasing from line to line, so there are at most as many
  lines as words. Nothing is assumed about the order of the words' times.
\<close>

theorem anchors_strictly_increasing:
  "\<exists>ls idxs. alignLyrics promptText alignedWords = Inr ls \<and> length idxs = length ls
      \<and> (\<forall>k<length ls. idxs ! k < length alignedWords
             \<and> startTime (ls ! k) = start (alignedWords ! (idxs ! k)))
      \<and> sorted_wrt (<) idxs \<and> length ls \<le> length alignedWords"
  by (rule alignLyrics_anchors)

theorem anchors_strictly_increasing_witness:
  "\<exists>ls idxs. alignLyrics (''b'' @ [CHR 0x0A] @ ''a'') [sunoWord ''b'' 5 6, sunoWord ''a'' 1 2] = Inr ls
      \<and> length ls = 2 \<and> length idxs = length ls
      \<and> (\<forall>k<length ls. idxs ! k < length [sunoWord ''b'' 5 6, sunoWord ''a'' 1 2]
             \<and> startTime (ls ! k) = start ([sunoWord ''b'' 5 6, sunoWord ''a'' 1 2] ! (idxs ! k)))
      \<and> sorted_wrt (<) idxs"
proof -
  have e: "alignLyrics (''b'' @ [CHR 0x0A] @ ''a'') [sunoWord ''b'' 5 6, sunoWord ''a'' 1 2]
         = Inr [\<lparr> text = ''b'', startTime = 5, endTime = 1, words = [] \<rparr>,
                \<lparr> text = ''a'', startTime = 1, endTime = 2, words = [] \<rparr>]"
    by code_simp
  from anchors_strictly_increasing [of "''b'' @ [CHR 0x0A] @ ''a''"
      "[sunoWord ''b'' 5 6, sunoWord ''a'' 1 2]"]
  obtain ls idxs where
    a: "alignLyrics (''b'' @ [CHR 0x0A] @ ''a'') [sunoWord ''b'' 5 6, sunoWord ''a'' 1 2] = Inr ls"
    and b: "length idxs = length ls"
    and c: "\<forall>k<length ls. idxs ! k < length [sunoWord ''b'' 5 6, sunoWord ''a'' 1 2]
             \<and> startTime (ls ! k) = start ([sunoWord ''b'' 5 6, sunoWord ''a'' 1 2] ! (idxs ! k))"
    and d: "sorted_wrt (<) idxs"
    by blast
  from a e have "length ls = 2" by simp
  with a b c d show ?thesis by blast
qed

text \<open>
  C5. Skipped lines: a line that starts with \<open>[\<close> and ends with \<open>]\<close>, and a line
  whose tokens all normalize to nothing, leave the loop state (the emitted lines and the
  word cursor) as it was. A line of the text that is blank, bracketed or without tokens
  after trimming can be deleted from the text without changing the result. A text all of
  whose lines are blank or bracketed gives the empty sequence. For the text
  made of the two lines "[Chorus]" and "Hello world" and the words Hello (0-0.5),
  world (0.5-1) the result is the single line "Hello world" starting at 0.
\<close>

theorem skipped_lines_leave_no_trace:
  "((startsWith l ''['' \<and> endsWith l '']'') \<or> tokenize l = [] \<longrightarrow> alignLine ws l st = Inr st)
   \<and> (CHR 0x0A \<notin> set x
       \<and> (trim x = [] \<or> (startsWith (trim x) ''['' \<and> endsWith (trim x) '']'') \<or> tokenize (trim x) = [])
      \<longrightarrow> alignLyrics (a @ [CHR 0x0A] @ x @ [CHR 0x0A] @ b) ws = alignLyrics (a @ [CHR 0x0A] @ b) ws)
   \<and> ((\<forall>p\<in>set (splitChar (CHR 0x0A) t).
          trim p = [] \<or> (startsWith (trim p) ''['' \<and> endsWith (trim p) '']''))
      \<longrightarrow> alignLyrics t ws = Inr [])
   \<and> alignLyrics (''[Chorus]'' @ [CHR 0x0A] @ ''Hello world'')
         [sunoWord ''Hello'' 0 0.5, sunoWord ''world'' 0.5 1]
       = Inr [\<lparr> text = ''Hello world'', startTime = 0, endTime = 1, words = [] \<rparr>]"
proof -
  have "alignLyrics (''[Chorus]'' @ [CHR 0x0A] @ ''Hello world'')
         [sunoWord ''Hello'' 0 0.5, sunoWord ''world'' 0.5 1]
       = Inr [\<lparr> text = ''Hello world'', startTime = 0, endTime = 1, words = [] \<rparr>]"
    by code_simp
  then show ?thesis
    using alignLine_skip [of l ws st] skipped_line_removed [of x a b ws] all_skipped_empty [of t ws]
    by blast
qed

theorem skipped_lines_leave_no_trace_witness:
  "alignLine [sunoWord ''Chorus'' 0 1] ''[Chorus]'' \<lparr> lines = [], wordCursor = 0 \<rparr>
     = Inr \<lparr> lines = [], wordCursor = 0 \<rparr>
   \<and> alignLine [sunoWord ''Chorus'' 0 1] ''?! ...'' \<lparr> lines = [], wordCursor = 0 \<rparr>
     = Inr \<lparr> lines = [], wordCursor = 0 \<rparr>
   \<and> alignLyrics (''Hello'' @ [CHR 0x0A] @ '' [Chorus] '' @ [CHR 0x0A] @ ''world'')
        [sunoWord ''Hello'' 0 0.5, sunoWord ''Chorus'' 0.5 1, sunoWord ''world'' 1 1.5]
     = alignLyrics (''Hello'' @ [CHR 0x0A] @ ''world'')
        [sunoWord ''Hello'' 0 0.5, sunoWord ''Chorus'' 0.5 1, sunoWord ''world'' 1 1.5]
   \<and> alignLyrics (''[Verse]'' @ [CHR 0x0A] @ ''  '' @ [CHR 0x0A] @ [CHR 0x0A] @ '' [Chorus]'')
        [sunoWord ''Verse'' 0 1, sunoWord ''Chorus'' 1 2] = Inr []"
proof -
  have h1: "startsWith ''[Chorus]'' ''['' \<and> endsWith ''[Chorus]'' '']''"
    by (simp add: startsWith_def endsWith_def)
  have h2: "tokenize ''?! ...'' = []" by code_simp
  have h3: "CHR 0x0A \<notin> set '' [Chorus] ''
       \<and> (trim '' [Chorus] '' = [] \<or> (startsWith (trim '' [Chorus] '') ''['' \<and> endsWith (trim '' [Chorus] '') '']'')
          \<or> tokenize (trim '' [Chorus] '') = [])"
    by code_simp
  have h4: "\<forall>p\<in>set (splitChar (CHR 0x0A) (''[Verse]'' @ [CHR 0x0A] @ ''  '' @ [CHR 0x0A] @ [CHR 0x0A] @ '' [Chorus]'')).
          trim p = [] \<or> (startsWith (trim p) ''['' \<and> endsWith (trim p) '']'')"
    by code_simp
  from skipped_lines_leave_no_trace [where l = "''[Chorus]''" and ws = "[sunoWord ''Chorus'' 0 1]"
      and st = "\<lparr> lines = [], wordCursor = 0 \<rparr>"] h1
  have a: "alignLine [sunoWord ''Chorus'' 0 1] ''[Chorus]'' \<lparr> lines = [], wordCursor = 0 \<rparr>
     = Inr \<lparr> lines = [], wordCursor = 0 \<rparr>"
    by blast
  from skipped_lines_leave_no_trace [where l = "''?! ...''" and ws = "[sunoWord ''Chorus'' 0 1]"
      and st = "\<lparr> lines = [], wordCursor = 0 \<rparr>"] h2
  have b: "alignLine [sunoWord ''Chorus'' 0 1] ''?! ...'' \<lparr> lines = [], wordCursor = 0 \<rparr>
     = Inr \<lparr> lines = [], wordCursor = 0 \<rparr>"
    by blast
  from skipped_lines_leave_no_trace [where x = "'' [Chorus] ''" and a = "''Hello''" and b = "''world''"
      and ws = "[sunoWord ''Hello'' 0 0.5, sunoWord ''Chorus'' 0.5 1, sunoWord ''world'' 1 1.5]"] h3
  have c: "alignLyrics (''Hello'' @ [CHR 0x0A] @ '' [Chorus] '' @ [CHR 0x0A] @ ''world'')
        [sunoWord ''Hello'' 0 0.5, sunoWord ''Chorus'' 0.5 1, sunoWord ''world'' 1 1.5]
     = alignLyrics (''Hello'' @ [CHR 0x0A] @ ''world'')
        [sunoWord ''Hello'' 0 0.5, sunoWord ''Chorus'' 0.5 1, sunoWord ''world'' 1 1.5]"
    by blast
  from skipped_lines_leave_no_trace [where ws = "[sunoWord ''Verse'' 0 1, sunoWord ''Chorus'' 1 2]"
      and t = "''[Verse]'' @ [CHR 0x0A] @ ''  '' @ [CHR 0x0A] @ [CHR 0x0A] @ '' [Chorus]''"] h4
  have d: "alignLyrics (''[Verse]'' @ [CHR 0x0A] @ ''  '' @ [CHR 0x0A] @ [CHR 0x0A] @ '' [Chorus]'')
        [sunoWord ''Verse'' 0 1, sunoWord ''Chorus'' 1 2] = Inr []"
    by blast
  from a b c d show ?thesis by blast
qed






end
